theory Spec2Isabelle
  imports Complex_Main "HOL-Library.Sublist" "HOL-Library.Log_Nat"
begin

section \<open>The engine session of the chess analyser\<close>

text \<open>
  A shallow embedding of package \<open>gameengine\<close> (type \<open>StockfishAnalyser\<close> with
  \<open>NewStockfishAnalyser\<close>, \<open>sendCommand\<close>, \<open>readUntil\<close>, \<open>AnalyseGame\<close>, \<open>Close\<close>).
  Go strings are byte sequences, so they are \<^typ>\<open>string\<close> here. Go's \<open>int\<close> is taken
  as the 64-bit integer of the usual build targets and modelled as \<^typ>\<open>int\<close>, with the
  clamping of \<open>strconv.Atoi\<close> written out. A Go function returning \<open>(value, error)\<close>
  returns a pair here, the error being \<open>None\<close> for \<open>nil\<close>, since callers in the source
  can and do look at both components.
\<close>

subsection \<open>Errors\<close>

datatype error =
    io_EOF                      \<comment> \<open>the stream ended before the delimiter\<close>
  | io_WriteError               \<comment> \<open>a write to the engine's stdin failed\<close>
  | os_PipeError                \<comment> \<open>\<open>StdinPipe\<close> or \<open>StdoutPipe\<close> failed\<close>
  | os_StartError               \<comment> \<open>\<open>cmd.Start\<close> failed\<close>
  | chess_PGNError              \<comment> \<open>\<open>chess.PGN\<close> rejected the text\<close>
  | chess_InvalidMove           \<comment> \<open>\<open>Game.Move\<close> rejected the move\<close>
  | strconv_ErrSyntax
  | strconv_ErrRange
  | Errorf string error         \<comment> \<open>\<open>fmt.Errorf(msg ++ "%w", err)\<close>\<close>

subsection \<open>The process and its two pipes\<close>

text \<open>
  \<open>StockfishAnalyser\<close> holds the command, the write end of the engine's stdin and the read
  end of its stdout, with a buffered reader on the latter. The record keeps what the
  operations below can observe of them:
  \<^item> \<open>cmd_started\<close>, \<open>cmd_waited\<close>: the process was started; \<open>cmd.Wait\<close> has reaped it;
  \<^item> \<open>stdin_open\<close>, \<open>stdout_open\<close>: the pipe ends held by this program are open;
  \<^item> \<open>stdin_written\<close>: the strings handed to successful \<open>Fprintln\<close> calls, oldest first
    (each goes out followed by a newline);
  \<^item> \<open>stdin_faults\<close>: for the writes to come, whether the operating system fails them;
  \<^item> \<open>reader\<close>: the bytes the engine emits on stdout before closing it, not yet read.
  A read that blocks for ever on a silent engine is not represented: the stream is the
  finite text the engine emits before end of file.
\<close>

record StockfishAnalyser =
  cmd_started :: bool
  cmd_waited :: bool
  stdin_open :: bool
  stdout_open :: bool
  stdin_written :: "string list"
  stdin_faults :: "bool list"
  reader :: string

text \<open>\<open>fmt.Fprintln(s.stdin, command)\<close>: one write of the command and a newline.\<close>

definition Fprintln :: "StockfishAnalyser \<Rightarrow> string \<Rightarrow> error option \<times> StockfishAnalyser" where
  "Fprintln s command =
     (let fault = (case stdin_faults s of [] \<Rightarrow> False | f # _ \<Rightarrow> f);
          s' = s\<lparr>stdin_faults := tl (stdin_faults s)\<rparr>
      in if \<not> stdin_open s \<or> fault then (Some io_WriteError, s')
         else (None, s'\<lparr>stdin_written := stdin_written s @ [command]\<rparr>))"

definition sendCommand :: "StockfishAnalyser \<Rightarrow> string \<Rightarrow> error option \<times> StockfishAnalyser" where
  "sendCommand s command = Fprintln s command"

text \<open>
  \<open>bufio.Reader.ReadString('\n')\<close>: the bytes up to and including the first newline; when
  the stream ends first, the bytes read so far together with \<open>io.EOF\<close>.
\<close>

definition newline :: char where
  "newline = CHR 0x0A"

definition ReadString :: "string \<Rightarrow> (string \<times> error option) \<times> string" where
  "ReadString bytes =
     (if newline \<in> set bytes
      then ((takeWhile (\<lambda>c. c \<noteq> newline) bytes @ [newline], None),
            tl (dropWhile (\<lambda>c. c \<noteq> newline) bytes))
      else ((bytes, Some io_EOF), []))"

text \<open>\<open>strings.Contains\<close>: the second string occurs in the first.\<close>

fun strings_Contains :: "string \<Rightarrow> string \<Rightarrow> bool" where
  "strings_Contains [] substr = (substr = [])"
| "strings_Contains (c # cs) substr = (prefix substr (c # cs) \<or> strings_Contains cs substr)"

lemma ReadString_shorter:
  assumes "newline \<in> set bytes"
  shows "length (snd (ReadString bytes)) < length bytes"
proof -
  let ?d = "dropWhile (\<lambda>c. c \<noteq> newline) bytes"
  have "?d \<noteq> []"
    using assms by auto
  then have "length (tl ?d) < length ?d"
    by (cases ?d) simp_all
  moreover have "length ?d \<le> length bytes"
    by (rule length_dropWhile_le)
  moreover have "snd (ReadString bytes) = tl ?d"
    using assms by (simp add: ReadString_def)
  ultimately show ?thesis
    by (metis less_le_trans)
qed

text \<open>
  The loop of \<open>readUntil\<close>, on the text accumulated so far and the bytes still to come. It
  returns the first component \<open>""\<close> with the error when a read fails, and the accumulated
  text once a line contains the marker.
\<close>

function readUntil_loop :: "string \<Rightarrow> string \<Rightarrow> string \<Rightarrow> (string \<times> error option) \<times> string" where
  "readUntil_loop contains output bytes =
     (case ReadString bytes of
        ((line, Some err), rest) \<Rightarrow> (([], Some err), rest)
      | ((line, None), rest) \<Rightarrow>
          if strings_Contains line contains then ((output @ line, None), rest)
          else readUntil_loop contains (output @ line) rest)"
  by pat_completeness auto
termination
proof (relation "measure (\<lambda>(marker, acc, bytes). length bytes)")
  show "wf (measure (\<lambda>(marker, acc, bytes). length bytes))" by simp
next
  fix marker acc bytes :: string and x rest xa and y :: "error option"
  assume "(x, rest) = ReadString bytes" "(xa, y) = x" "y = None"
  then have "newline \<in> set bytes" "rest = snd (ReadString bytes)"
    by (auto simp: ReadString_def split: if_splits)
  then show "((marker, acc @ xa, rest), (marker, acc, bytes))
               \<in> measure (\<lambda>(marker, acc, bytes). length bytes)"
    using ReadString_shorter by simp
qed

definition readUntil :: "StockfishAnalyser \<Rightarrow> string \<Rightarrow> (string \<times> error option) \<times> StockfishAnalyser" where
  "readUntil s contains =
     (case readUntil_loop contains [] (reader s) of
        (r, rest) \<Rightarrow> (r, s\<lparr>reader := rest\<rparr>))"

subsection \<open>The score pattern and \<open>strconv.Atoi\<close>\<close>

definition is_digit :: "char \<Rightarrow> bool" where
  "is_digit c = (c \<in> set ''0123456789'')"

text \<open>
  \<open>regexp.MustCompile(`score cp (-?\d+)`)\<close>, tried at the very start of a string. The
  result is the slice of \<open>FindStringSubmatch\<close>: the whole match and the text of the one
  group, or the empty slice (\<open>nil\<close>). An optional minus sign and a greedy, non-empty run
  of ASCII digits must follow the literal; there is one way to match at a given start.
\<close>

definition scoreRegex_here :: "string \<Rightarrow> string list" where
  "scoreRegex_here s =
     (if prefix ''score cp '' s
      then (let r = drop (length ''score cp '') s;
                sign = (case r of [] \<Rightarrow> [] | c # _ \<Rightarrow> if c = CHR ''-'' then ''-'' else []);
                ds = takeWhile is_digit (drop (length sign) r)
            in if ds = [] then [] else [''score cp '' @ sign @ ds, sign @ ds])
      else [])"

text \<open>\<open>scoreRegex.FindStringSubmatch\<close>: the match that starts leftmost in the text.\<close>

fun FindStringSubmatch :: "string \<Rightarrow> string list" where
  "FindStringSubmatch [] = []"
| "FindStringSubmatch (c # cs) =
     (case scoreRegex_here (c # cs) of
        [] \<Rightarrow> FindStringSubmatch cs
      | m # ms \<Rightarrow> m # ms)"

definition digit_value :: "char \<Rightarrow> int" where
  "digit_value c = int (of_char c) - 48"

definition decimal_value :: "string \<Rightarrow> int" where
  "decimal_value ds = foldl (\<lambda>n c. 10 * n + digit_value c) 0 ds"

definition maxInt :: int where
  "maxInt = 2 ^ 63 - 1"

definition minInt :: int where
  "minInt = - (2 ^ 63)"

text \<open>
  \<open>strconv.Atoi\<close> in base 10: an optional sign and digits; \<open>0\<close> with a syntax error on
  anything else; the nearest bound of \<open>int\<close> with a range error when the number does not
  fit.
\<close>

definition Atoi :: "string \<Rightarrow> int \<times> error option" where
  "Atoi s =
     (let neg = (case s of [] \<Rightarrow> False | c # _ \<Rightarrow> c = CHR ''-'');
          ds = (case s of [] \<Rightarrow> [] | c # cs \<Rightarrow> if c = CHR ''-'' \<or> c = CHR ''+'' then cs else s)
      in if ds = [] \<or> \<not> list_all is_digit ds then (0, Some strconv_ErrSyntax)
         else let n = (if neg then - decimal_value ds else decimal_value ds)
              in if maxInt < n then (maxInt, Some strconv_ErrRange)
                 else if n < minInt then (minInt, Some strconv_ErrRange)
                 else (n, None))"

subsection \<open>\<open>float64\<close> arithmetic and \<open>%+.2f\<close>\<close>

text \<open>
  A finite \<open>float64\<close> is modelled by the rational number it denotes. \<open>float64_round\<close> is
  IEEE 754 rounding to the nearest value with a 53-bit significand, ties to even, for
  the normal range (the quotients of a 64-bit integer by 100 lie in it; infinities, NaN
  and the sign of zero do not arise from them).
\<close>

type_synonym float64 = rat

definition round_half_even :: "rat \<Rightarrow> int" where
  "round_half_even x =
     (let f = \<lfloor>x\<rfloor>; r = x - of_int f
      in if r < 1 / 2 then f else if 1 / 2 < r then f + 1 else if even f then f else f + 1)"

text \<open>The \<open>k\<close> with \<open>2 ^ k \<le> a < 2 ^ (k + 1)\<close>, for \<open>a > 0\<close>.\<close>

definition binary_exponent :: "rat \<Rightarrow> int" where
  "binary_exponent a =
     (case quotient_of a of
        (n, d) \<Rightarrow> let k = bitlen n - bitlen d in if 2 powi k \<le> a then k else k - 1)"

definition float64_round :: "rat \<Rightarrow> float64" where
  "float64_round x =
     (if x = 0 then 0
      else let e = binary_exponent \<bar>x\<bar> - 52;
               m = round_half_even (\<bar>x\<bar> / 2 powi e)
           in sgn x * of_int m * 2 powi e)"

text \<open>The conversion \<open>float64(n)\<close> and the quotient \<open>x / y\<close> of two \<open>float64\<close>.\<close>

definition float64_of_int :: "int \<Rightarrow> float64" where
  "float64_of_int n = float64_round (of_int n)"

definition float64_div :: "float64 \<Rightarrow> float64 \<Rightarrow> float64" where
  "float64_div x y = float64_round (x / y)"

definition digit_char :: "int \<Rightarrow> char" where
  "digit_char d = char_of (48 + d)"

function decimal :: "int \<Rightarrow> string" where
  "decimal n = (if n < 10 then [digit_char n] else decimal (n div 10) @ [digit_char (n mod 10)])"
  by pat_completeness auto
termination
  by (relation "measure nat") auto

text \<open>
  \<open>fmt.Sprintf("%+.2f", x)\<close>: the sign always, then the exact value rounded to two
  decimals (half to even), all integer digits written out.
\<close>

definition Sprintf_plus_2f :: "float64 \<Rightarrow> string" where
  "Sprintf_plus_2f x =
     (let n = round_half_even (\<bar>x\<bar> * 100)
      in (if x < 0 then ''-'' else ''+'') @ decimal (n div 100) @ ''.''
           @ [digit_char (n mod 100 div 10), digit_char (n mod 10)])"

subsection \<open>The chess library and the game record\<close>

text \<open>
  Package \<open>github.com/notnil/chess\<close> is not part of the repository; the analyser is
  parametrised by the five operations it calls: \<open>chess.PGN\<close> followed by
  \<open>NewGame(...).Moves()\<close>, \<open>chess.NewGame()\<close>, \<open>Game.FEN\<close>, \<open>Game.Move\<close> and \<open>Move.String\<close>.
\<close>

record ('g, 'm) chess =
  chess_PGN :: "string \<Rightarrow> 'm list \<times> error option"
  chess_NewGame :: 'g
  chess_FEN :: "'g \<Rightarrow> string"
  chess_Move :: "'g \<Rightarrow> 'm \<Rightarrow> 'g \<times> error option"
  Move_String :: "'m \<Rightarrow> string"

record Player =
  Rating :: int
  Result :: string
  ID :: string
  Username :: string

record Game =
  URL :: string
  PGN :: string
  TimeControl :: string
  EndTime :: int
  Rated :: bool
  FEN :: string
  TimeClass :: string
  Rules :: string
  White :: Player
  Black :: Player

record MoveAnalysis =
  MoveNumber :: int
  Move :: string
  Evaluation :: float64
  EvaluationText :: string

subsection \<open>\<open>AnalyseGame\<close>\<close>

text \<open>
  Lines 132 to 137 of the loop body: the score taken from the transcript of one search,
  \<open>0\<close> (the zero value of \<open>var centipawns int\<close>) when the pattern does not match. The
  error of \<open>Atoi\<close> is dropped, as in the source.
\<close>

definition centipawns_of :: "string \<Rightarrow> int" where
  "centipawns_of output =
     (let matches = FindStringSubmatch output
      in if length matches > 1 then fst (Atoi (matches ! 1)) else 0)"

text \<open>Lines 139 to 147: the element appended for index \<open>i\<close>.\<close>

definition analysis_entry :: "nat \<Rightarrow> string \<Rightarrow> int \<Rightarrow> MoveAnalysis" where
  "analysis_entry i move_string centipawns =
     (let pawnEvaluation = float64_div (float64_of_int centipawns) 100
      in \<lparr>MoveNumber = int i div 2 + 1,
          Move = move_string,
          Evaluation = pawnEvaluation,
          EvaluationText = Sprintf_plus_2f pawnEvaluation\<rparr>)"

text \<open>
  The \<open>for i, move := range parsedGame.Moves()\<close> loop, as a recursion on the moves still
  to process: \<open>i\<close> is the index, \<open>gameLogic\<close> the replayed game, \<open>analysis\<close> the slice
  built so far. The results of the two \<open>sendCommand\<close> calls are dropped, as in the
  source. Both error returns give the \<open>nil\<close> slice.
\<close>

fun AnalyseGame_loop ::
  "('g, 'm) chess \<Rightarrow> nat \<Rightarrow> 'm list \<Rightarrow> 'g \<Rightarrow> MoveAnalysis list \<Rightarrow> StockfishAnalyser
     \<Rightarrow> (MoveAnalysis list \<times> error option) \<times> StockfishAnalyser" where
  "AnalyseGame_loop lib i [] gameLogic analysis s = ((analysis, None), s)"
| "AnalyseGame_loop lib i (move # moves) gameLogic analysis s =
     (let fen = chess_FEN lib gameLogic;
          s1 = snd (sendCommand s (''position fen '' @ fen));
          s2 = snd (sendCommand s1 ''go movetime 500'')
      in case readUntil s2 ''bestmove'' of
           ((output, Some err), s3) \<Rightarrow>
             (([], Some (Errorf ''error reading from stockfish: %w'' err)), s3)
         | ((output, None), s3) \<Rightarrow>
             (let analysis' =
                    analysis @ [analysis_entry i (Move_String lib move) (centipawns_of output)]
              in case chess_Move lib gameLogic move of
                   (gameLogic', Some err) \<Rightarrow>
                     (([], Some (Errorf ''invalid move found in PGN: %w'' err)), s3)
                 | (gameLogic', None) \<Rightarrow>
                     AnalyseGame_loop lib (Suc i) moves gameLogic' analysis' s3))"

definition AnalyseGame ::
  "('g, 'm) chess \<Rightarrow> StockfishAnalyser \<Rightarrow> Game
     \<Rightarrow> (MoveAnalysis list \<times> error option) \<times> StockfishAnalyser" where
  "AnalyseGame lib s game =
     (case chess_PGN lib (PGN game) of
        (parsed, Some err) \<Rightarrow> (([], Some (Errorf ''failed to create PGN parser: %w'' err)), s)
      | (parsed, None) \<Rightarrow> AnalyseGame_loop lib 0 parsed (chess_NewGame lib) [] s)"

subsection \<open>\<open>Close\<close> and \<open>NewStockfishAnalyser\<close>\<close>

definition Close :: "StockfishAnalyser \<Rightarrow> StockfishAnalyser" where
  "Close s =
     (let s1 = snd (sendCommand s ''quit'')
      in s1\<lparr>cmd_waited := True, stdin_open := False, stdout_open := False\<rparr>)"

text \<open>
  What \<open>os/exec\<close> does for one call of \<open>NewStockfishAnalyser\<close>: whether creating either
  pipe or starting the process fails, what the started engine will print, and which of
  the writes to it will fail.
\<close>

record exec_outcome =
  StdinPipe_err :: "error option"
  StdoutPipe_err :: "error option"
  Start_err :: "error option"
  engine_stdout :: string
  engine_stdin_faults :: "bool list"

text \<open>
  The first component is what the function returns (\<open>None\<close> for the \<open>nil\<close> pointer), the
  second the process and pipes as the call leaves them, whether or not a pointer to them
  was returned. A failed \<open>cmd.Start\<close> closes the pipes itself. \<open>handshake\<close> is the
  part of the function after the struct is built (the \<open>uci\<close> and \<open>isready\<close> exchanges).
\<close>

definition handshake ::
  "StockfishAnalyser \<Rightarrow> (StockfishAnalyser option \<times> error option) \<times> StockfishAnalyser" where
  "handshake analyser =
     (case sendCommand analyser ''uci'' of
        (Some err, a1) \<Rightarrow> ((None, Some err), a1)
      | (None, a1) \<Rightarrow>
         (case readUntil a1 ''uciok'' of
            ((_, Some err), a2) \<Rightarrow> ((None, Some err), a2)
          | ((_, None), a2) \<Rightarrow>
             (case sendCommand a2 ''isready'' of
                (Some err, a3) \<Rightarrow> ((None, Some err), a3)
              | (None, a3) \<Rightarrow>
                 (case readUntil a3 ''readyok'' of
                    ((_, Some err), a4) \<Rightarrow> ((None, Some err), a4)
                  | ((_, None), a4) \<Rightarrow> ((Some a4, None), a4)))))"

definition NewStockfishAnalyser ::
  "exec_outcome \<Rightarrow> (StockfishAnalyser option \<times> error option) \<times> StockfishAnalyser" where
  "NewStockfishAnalyser x =
     (let cmd = \<lparr>cmd_started = False, cmd_waited = False, stdin_open = False,
                 stdout_open = False, stdin_written = [],
                 stdin_faults = engine_stdin_faults x, reader = engine_stdout x\<rparr>
      in case StdinPipe_err x of
           Some err \<Rightarrow> ((None, Some err), cmd)
         | None \<Rightarrow>
            (case StdoutPipe_err x of
               Some err \<Rightarrow> ((None, Some err), cmd\<lparr>stdin_open := True\<rparr>)
             | None \<Rightarrow>
                (case Start_err x of
                   Some err \<Rightarrow>
                     ((None, Some (Errorf ''failed to start stockfish: %w. Is the path correct?'' err)),
                      cmd)
                 | None \<Rightarrow>
                     handshake (cmd\<lparr>stdin_open := True, stdout_open := True,
                                    cmd_started := True\<rparr>))))"

subsection \<open>Conditions on a run\<close>

text \<open>The move list replays from the given game: \<open>Game.Move\<close> accepts every move in turn.\<close>

fun replays :: "('g, 'm) chess \<Rightarrow> 'g \<Rightarrow> 'm list \<Rightarrow> bool" where
  "replays lib g [] = True"
| "replays lib g (m # ms) =
     (case chess_Move lib g m of
        (g', None) \<Rightarrow> replays lib g' ms
      | (g', Some err) \<Rightarrow> False)"

text \<open>The board positions handed to the engine: the one before each move.\<close>

fun positions :: "('g, 'm) chess \<Rightarrow> 'g \<Rightarrow> 'm list \<Rightarrow> string list" where
  "positions lib g [] = []"
| "positions lib g (m # ms) = chess_FEN lib g # positions lib (fst (chess_Move lib g m)) ms"

text \<open>The complete (newline-terminated) lines of a stream, each with its newline.\<close>

function complete_lines :: "string \<Rightarrow> string list" where
  "complete_lines bytes =
     (if newline \<in> set bytes
      then fst (fst (ReadString bytes)) # complete_lines (snd (ReadString bytes))
      else [])"
  by pat_completeness auto
termination
  by (relation "measure length") (auto simp: ReadString_shorter)

text \<open>How many searches the engine's remaining output completes.\<close>

definition completions :: "string \<Rightarrow> nat" where
  "completions bytes =
     length (filter (\<lambda>line. strings_Contains line ''bestmove'') (complete_lines bytes))"

text \<open>The session once the two commands of one iteration have been sent.\<close>

definition after_search :: "('g, 'm) chess \<Rightarrow> 'g \<Rightarrow> StockfishAnalyser \<Rightarrow> StockfishAnalyser" where
  "after_search lib g s =
     snd (sendCommand (snd (sendCommand s (''position fen '' @ chess_FEN lib g))) ''go movetime 500'')"

text \<open>The two commands of one iteration, and what every command of the loop looks like.\<close>

definition search_commands :: "string \<Rightarrow> string list" where
  "search_commands fen = [''position fen '' @ fen, ''go movetime 500'']"

definition fixed_search :: "string \<Rightarrow> bool" where
  "fixed_search c = (c = ''go movetime 500'' \<or> prefix ''position fen '' c)"

text \<open>
  The elements the loop appends for the moves \<open>ms\<close> from index \<open>i\<close> on, given the score
  found for each.
\<close>

definition entries :: "('g, 'm) chess \<Rightarrow> nat \<Rightarrow> 'm list \<Rightarrow> int list \<Rightarrow> MoveAnalysis list" where
  "entries lib i ms cps =
     map (\<lambda>(k, m, cp). analysis_entry k (Move_String lib m) cp) (zip [i..<i + length ms] (zip ms cps))"

text \<open>The process runs, has not been waited for, and both pipe ends are open.\<close>

definition unreleased :: "StockfishAnalyser \<Rightarrow> bool" where
  "unreleased p = (cmd_started p \<and> \<not> cmd_waited p \<and> stdin_open p \<and> stdout_open p)"

subsection \<open>What the specification expects\<close>

text \<open>
  The search command of the specification, which carries a thinking time in
  milliseconds chosen by the caller.
\<close>

definition spec_search_command :: "int \<Rightarrow> string" where
  "spec_search_command thinkTimeMs = ''go movetime '' @ decimal thinkTimeMs"

text \<open>
  The display text of the specification: the sign, then the centipawn score divided by
  100 with exactly two decimals, computed on the integer.
\<close>

definition signed_two_decimals :: "int \<Rightarrow> string" where
  "signed_two_decimals cp =
     (if cp < 0 then ''-'' else ''+'') @ decimal (\<bar>cp\<bar> div 100) @ ''.''
       @ [digit_char (\<bar>cp\<bar> mod 100 div 10), digit_char (\<bar>cp\<bar> mod 10)]"

subsection \<open>Concrete inputs\<close>

text \<open>
  A replay provider for concrete runs. The game text lists moves in coordinate notation
  separated by blanks; the replayed game is the list of moves made; every move but the
  null move \<open>0000\<close> is accepted.
\<close>

fun fields :: "string \<Rightarrow> string \<Rightarrow> string list" where
  "fields word [] = (if word = [] then [] else [word])"
| "fields word (c # cs) =
     (if c = CHR '' '' then (if word = [] then [] else [word]) @ fields [] cs
      else fields (word @ [c]) cs)"

definition coordinate_replay :: "(string list, string) chess" where
  "coordinate_replay =
     \<lparr>chess_PGN = (\<lambda>text. (fields [] text, None)),
      chess_NewGame = [],
      chess_FEN = (\<lambda>g. ''startpos moves'' @ concat (map (\<lambda>m. CHR '' '' # m) g)),
      chess_Move = (\<lambda>g m. if m = ''0000'' then (g, Some chess_InvalidMove) else (g @ [m], None)),
      Move_String = (\<lambda>m. m)\<rparr>"

definition game_with_PGN :: "string \<Rightarrow> Game" where
  "game_with_PGN text =
     \<lparr>URL = [], PGN = text, TimeControl = [], EndTime = 0, Rated = False, FEN = [],
      TimeClass = [], Rules = [],
      White = \<lparr>Rating = 0, Result = [], ID = [], Username = []\<rparr>,
      Black = \<lparr>Rating = 0, Result = [], ID = [], Username = []\<rparr>\<rparr>"

text \<open>A session after a successful handshake, with the given write faults and output to come.\<close>

definition ready_session :: "bool list \<Rightarrow> string \<Rightarrow> StockfishAnalyser" where
  "ready_session faults out =
     \<lparr>cmd_started = True, cmd_waited = False, stdin_open = True, stdout_open = True,
      stdin_written = [''uci'', ''isready''], stdin_faults = faults, reader = out\<rparr>"

definition unlines :: "string list \<Rightarrow> string" where
  "unlines ls = concat (map (\<lambda>l. l @ [newline]) ls)"

text \<open>
  The game 1. e4 e5 2. Nf3 Nc6, an engine that reports \<open>score cp 35\<close> for each of four
  searches, and an engine that completes \<open>n\<close> searches without reporting a score.
\<close>

definition four_ply_game :: Game where
  "four_ply_game = game_with_PGN ''e2e4 e7e5 g1f3 b8c6''"

definition steady_engine :: StockfishAnalyser where
  "steady_engine = ready_session []
     (unlines [''info depth 1 score cp 35'', ''bestmove e2e4'',
               ''info depth 1 score cp 35'', ''bestmove e7e5'',
               ''info depth 1 score cp 35'', ''bestmove g1f3'',
               ''info depth 1 score cp 35'', ''bestmove b8c6''])"

definition silent_engine :: "nat \<Rightarrow> StockfishAnalyser" where
  "silent_engine n = ready_session [] (unlines (replicate n ''bestmove (none)''))"

section \<open>Properties\<close>

declare readUntil_loop.simps [simp del] complete_lines.simps [simp del] decimal.simps [simp del]
declare AnalyseGame_loop.simps(2) [simp del]

subsection \<open>The channel\<close>

lemma sendCommand_reader [simp]: "reader (snd (sendCommand s c)) = reader s"
  by (simp add: sendCommand_def Fprintln_def Let_def)

lemma readUntil_stdin_written [simp]:
  "stdin_written (snd (readUntil s marker)) = stdin_written s"
  by (simp add: readUntil_def split: prod.splits)

lemma sendCommand_written:
  "stdin_written (snd (sendCommand s c)) = stdin_written s
   \<or> stdin_written (snd (sendCommand s c)) = stdin_written s @ [c]"
  by (simp add: sendCommand_def Fprintln_def Let_def)

lemma readUntil_stdin [simp]:
  "stdin_open (snd (readUntil s marker)) = stdin_open s"
  "stdin_faults (snd (readUntil s marker)) = stdin_faults s"
  by (simp_all add: readUntil_def split: prod.splits)

lemma after_search_reader [simp]: "reader (after_search lib g s) = reader s"
  by (simp add: after_search_def)

lemma after_search_written:
  "\<exists>new. stdin_written (after_search lib g s) = stdin_written s @ new
         \<and> set new \<subseteq> set (search_commands (chess_FEN lib g))"
proof -
  let ?s1 = "snd (sendCommand s (''position fen '' @ chess_FEN lib g))"
  from sendCommand_written [of s "''position fen '' @ chess_FEN lib g"]
  obtain n1 where n1: "stdin_written ?s1 = stdin_written s @ n1"
    "set n1 \<subseteq> {''position fen '' @ chess_FEN lib g}"
    by (metis append_Nil2 empty_set empty_subsetI list.simps(15) subset_refl)
  from sendCommand_written [of ?s1 "''go movetime 500''"]
  obtain n2 where n2: "stdin_written (after_search lib g s) = stdin_written ?s1 @ n2"
    "set n2 \<subseteq> {''go movetime 500''}"
    unfolding after_search_def
    by (metis append_Nil2 empty_set empty_subsetI list.simps(15) subset_refl)
  from n1 n2 have "stdin_written (after_search lib g s) = stdin_written s @ (n1 @ n2)"
    "set (n1 @ n2) \<subseteq> set (search_commands (chess_FEN lib g))"
    by (auto simp: search_commands_def)
  then show ?thesis by blast
qed

lemma after_search_written_exact:
  assumes "stdin_open s" "stdin_faults s = []"
  shows "stdin_written (after_search lib g s) = stdin_written s @ search_commands (chess_FEN lib g)"
    and "stdin_open (after_search lib g s)" and "stdin_faults (after_search lib g s) = []"
  using assms by (simp_all add: after_search_def sendCommand_def Fprintln_def Let_def search_commands_def)

lemma search_commands_fixed: "c \<in> set (search_commands fen) \<Longrightarrow> fixed_search c"
  by (auto simp: search_commands_def fixed_search_def)

subsection \<open>Reading up to the completion marker\<close>

lemma completions_unfold:
  "completions bytes =
     (if newline \<in> set bytes
      then (if strings_Contains (fst (fst (ReadString bytes))) ''bestmove'' then 1 else 0)
             + completions (snd (ReadString bytes))
      else 0)"
  unfolding completions_def by (subst complete_lines.simps) simp

lemma ReadString_cases:
  "(newline \<in> set bytes \<and> (\<exists>line rest. ReadString bytes = ((line, None), rest)))
   \<or> (newline \<notin> set bytes \<and> ReadString bytes = ((bytes, Some io_EOF), []))"
  by (simp add: ReadString_def)

lemma readUntil_loop_eof:
  "completions bytes = 0 \<Longrightarrow>
     \<exists>rest. readUntil_loop ''bestmove'' acc bytes = (([], Some io_EOF), rest)
            \<and> completions rest = 0"
proof (induction "''bestmove''" acc bytes rule: readUntil_loop.induct)
  case (1 acc bytes)
  show ?case
  proof (cases "newline \<in> set bytes")
    case False
    then have "readUntil_loop ''bestmove'' acc bytes = (([], Some io_EOF), [])"
      by (subst readUntil_loop.simps) (simp add: ReadString_def)
    moreover have "completions [] = 0"
      by (subst completions_unfold) simp
    ultimately show ?thesis by simp
  next
    case True
    then obtain line rest where rs: "ReadString bytes = ((line, None), rest)"
      using ReadString_cases by blast
    from "1.prems" True rs have nc: "\<not> strings_Contains line ''bestmove''" and c0: "completions rest = 0"
      by (subst (asm) completions_unfold, simp split: if_splits)+
    have "readUntil_loop ''bestmove'' acc bytes = readUntil_loop ''bestmove'' (acc @ line) rest"
      using rs nc by (subst readUntil_loop.simps) simp
    moreover have "\<exists>r. readUntil_loop ''bestmove'' (acc @ line) rest = (([], Some io_EOF), r)
            \<and> completions r = 0"
      using "1.hyps" [OF rs [symmetric] refl refl nc] c0 by simp
    ultimately show ?thesis by simp
  qed
qed

lemma readUntil_loop_complete:
  "0 < completions bytes \<Longrightarrow>
     \<exists>out rest. readUntil_loop ''bestmove'' acc bytes = ((out, None), rest)
            \<and> completions rest = completions bytes - 1"
proof (induction "''bestmove''" acc bytes rule: readUntil_loop.induct)
  case (1 acc bytes)
  from "1.prems" have True: "newline \<in> set bytes"
    by (subst (asm) completions_unfold) (simp split: if_splits)
  then obtain line rest where rs: "ReadString bytes = ((line, None), rest)"
    using ReadString_cases by blast
  have cu: "completions bytes = (if strings_Contains line ''bestmove'' then 1 else 0) + completions rest"
    using True rs by (subst completions_unfold) simp
  show ?case
  proof (cases "strings_Contains line ''bestmove''")
    case True
    then have "readUntil_loop ''bestmove'' acc bytes = ((acc @ line, None), rest)"
      using rs by (subst readUntil_loop.simps) simp
    then show ?thesis using cu True by simp
  next
    case False
    then have "readUntil_loop ''bestmove'' acc bytes = readUntil_loop ''bestmove'' (acc @ line) rest"
      using rs by (subst readUntil_loop.simps) simp
    moreover have "0 < completions rest" using cu False "1.prems" by simp
    ultimately show ?thesis
      using "1.hyps" [OF rs [symmetric] refl refl False] cu False by simp
  qed
qed

lemma readUntil_complete:
  assumes "0 < completions (reader s)"
  shows "\<exists>out s'. readUntil s ''bestmove'' = ((out, None), s')
           \<and> completions (reader s') = completions (reader s) - 1
           \<and> stdin_written s' = stdin_written s"
proof -
  obtain out rest where "readUntil_loop ''bestmove'' [] (reader s) = ((out, None), rest)"
    "completions rest = completions (reader s) - 1"
    using readUntil_loop_complete [OF assms] by blast
  then show ?thesis by (simp add: readUntil_def)
qed

lemma readUntil_eof:
  assumes "completions (reader s) = 0"
  shows "\<exists>s'. readUntil s ''bestmove'' = (([], Some io_EOF), s')"
proof -
  obtain rest where "readUntil_loop ''bestmove'' [] (reader s) = (([], Some io_EOF), rest)"
    using readUntil_loop_eof [OF assms] by blast
  then show ?thesis by (simp add: readUntil_def)
qed

lemma readUntil_ok_completions:
  assumes "readUntil s ''bestmove'' = ((out, None), s')"
  shows "0 < completions (reader s) \<and> completions (reader s') = completions (reader s) - 1"
proof (cases "completions (reader s) = 0")
  case True
  then show ?thesis using readUntil_eof [OF True] assms by auto
next
  case False
  then show ?thesis using readUntil_complete [of s] assms by auto
qed

subsection \<open>The loop of \<open>AnalyseGame\<close>\<close>

lemma loop_Cons:
  "AnalyseGame_loop lib i (m # ms) g an s =
     (case readUntil (after_search lib g s) ''bestmove'' of
        ((out, Some err), s3) \<Rightarrow> (([], Some (Errorf ''error reading from stockfish: %w'' err)), s3)
      | ((out, None), s3) \<Rightarrow>
          (case chess_Move lib g m of
             (g', Some err) \<Rightarrow> (([], Some (Errorf ''invalid move found in PGN: %w'' err)), s3)
           | (g', None) \<Rightarrow>
               AnalyseGame_loop lib (Suc i) ms g'
                 (an @ [analysis_entry i (Move_String lib m) (centipawns_of out)]) s3))"
  by (simp add: AnalyseGame_loop.simps(2) after_search_def Let_def)


lemma entries_Cons:
  "entries lib i (m # ms) (cp # cps) = analysis_entry i (Move_String lib m) cp # entries lib (Suc i) ms cps"
  by (simp add: entries_def upt_conv_Cons del: upt_Suc)

lemma loop_shape:
  "AnalyseGame_loop lib i ms g an s = ((res, None), s') \<Longrightarrow>
     \<exists>cps. length cps = length ms \<and> res = an @ entries lib i ms cps"
proof (induction ms arbitrary: i g an s)
  case Nil
  then show ?case by (simp add: entries_def)
next
  case (Cons m ms)
  from Cons.prems obtain out s3 g' where
    rec: "AnalyseGame_loop lib (Suc i) ms g'
            (an @ [analysis_entry i (Move_String lib m) (centipawns_of out)]) s3 = ((res, None), s')"
    by (auto simp: loop_Cons split: prod.splits option.splits)
  from Cons.IH [OF rec] obtain cps where
    "length cps = length ms"
    "res = (an @ [analysis_entry i (Move_String lib m) (centipawns_of out)]) @ entries lib (Suc i) ms cps"
    by blast
  then have "length (centipawns_of out # cps) = length (m # ms)
     \<and> res = an @ entries lib i (m # ms) (centipawns_of out # cps)"
    by (simp add: entries_Cons)
  then show ?case by blast
qed

lemma loop_succeeds:
  "replays lib g ms \<Longrightarrow> length ms \<le> completions (reader s) \<Longrightarrow>
     snd (fst (AnalyseGame_loop lib i ms g an s)) = None"
proof (induction ms arbitrary: i g an s)
  case Nil
  then show ?case by simp
next
  case (Cons m ms)
  from Cons.prems(2) have "0 < completions (reader (after_search lib g s))" by simp
  from readUntil_complete [OF this] obtain out s3 where
    ru: "readUntil (after_search lib g s) ''bestmove'' = ((out, None), s3)"
    and c3: "completions (reader s3) = completions (reader s) - 1"
    by auto
  from Cons.prems(1) obtain g' where mv: "chess_Move lib g m = (g', None)" and rp: "replays lib g' ms"
    by (auto split: prod.splits option.splits)
  have "length ms \<le> completions (reader s3)" using c3 Cons.prems(2) by simp
  from Cons.IH [OF rp this] show ?case
    by (simp add: loop_Cons ru mv)
qed

lemma loop_fails:
  "\<not> replays lib g ms \<or> completions (reader s) < length ms \<Longrightarrow>
     snd (fst (AnalyseGame_loop lib i ms g an s)) \<noteq> None"
proof (induction ms arbitrary: i g an s)
  case Nil
  then show ?case by simp
next
  case (Cons m ms)
  show ?case
  proof (cases "readUntil (after_search lib g s) ''bestmove''")
    case (Pair r s3)
    obtain out e where r: "r = (out, e)" by (cases r)
    show ?thesis
    proof (cases e)
      case (Some err)
      then show ?thesis by (simp add: loop_Cons Pair r)
    next
      case None
      with Pair r have ru: "readUntil (after_search lib g s) ''bestmove'' = ((out, None), s3)" by simp
      from readUntil_ok_completions [OF ru]
      have c3: "0 < completions (reader s)" "completions (reader s3) = completions (reader s) - 1"
        by simp_all
      obtain g' e' where mv: "chess_Move lib g m = (g', e')" by (cases "chess_Move lib g m")
      show ?thesis
      proof (cases e')
        case (Some err)
        then show ?thesis by (simp add: loop_Cons ru mv)
      next
        case None
        with mv Cons.prems c3 have "\<not> replays lib g' ms \<or> completions (reader s3) < length ms"
          by auto
        from Cons.IH [OF this] show ?thesis
          by (simp add: loop_Cons ru mv None)
      qed
    qed
  qed
qed

lemma loop_error_nil:
  "snd (fst (AnalyseGame_loop lib i ms g an s)) \<noteq> None \<Longrightarrow>
     fst (fst (AnalyseGame_loop lib i ms g an s)) = []"
proof (induction ms arbitrary: i g an s)
  case Nil
  then show ?case by simp
next
  case (Cons m ms)
  then show ?case
    by (auto simp: loop_Cons split: prod.splits option.splits)
qed

lemma entries_length [simp]: "length cps = length ms \<Longrightarrow> length (entries lib j ms cps) = length ms"
  by (simp add: entries_def)

lemma entries_nth:
  "length cps = length ms \<Longrightarrow> i < length ms \<Longrightarrow>
     entries lib j ms cps ! i = analysis_entry (j + i) (Move_String lib (ms ! i)) (cps ! i)"
  by (simp add: entries_def)

lemma analysis_entry_sel [simp]:
  "MoveNumber (analysis_entry i mv cp) = int i div 2 + 1"
  "Move (analysis_entry i mv cp) = mv"
  "Evaluation (analysis_entry i mv cp) = float64_div (float64_of_int cp) 100"
  "EvaluationText (analysis_entry i mv cp) = Sprintf_plus_2f (float64_div (float64_of_int cp) 100)"
  by (simp_all add: analysis_entry_def Let_def)

lemma AnalyseGame_parsed:
  "chess_PGN lib (PGN game) = (ms, None) \<Longrightarrow>
     AnalyseGame lib s game = AnalyseGame_loop lib 0 ms (chess_NewGame lib) [] s"
  by (simp add: AnalyseGame_def)

lemma AnalyseGame_ok_shape:
  assumes "AnalyseGame lib s game = ((res, None), s')"
  shows "\<exists>ms cps. chess_PGN lib (PGN game) = (ms, None) \<and> length cps = length ms
           \<and> res = entries lib 0 ms cps"
proof -
  obtain ms e where p: "chess_PGN lib (PGN game) = (ms, e)"
    by (cases "chess_PGN lib (PGN game)")
  with assms have e: "e = None"
    by (cases e) (simp_all add: AnalyseGame_def)
  with p assms have "AnalyseGame_loop lib 0 ms (chess_NewGame lib) [] s = ((res, None), s')"
    by (simp add: AnalyseGame_def)
  from loop_shape [OF this] p e show ?thesis by auto
qed

lemma loop_written:
  "\<exists>new. stdin_written (snd (AnalyseGame_loop lib i ms g an s)) = stdin_written s @ new
         \<and> (\<forall>c \<in> set new. fixed_search c)"
proof (induction ms arbitrary: i g an s)
  case Nil
  then show ?case by simp
next
  case (Cons m ms)
  obtain n0 where n0: "stdin_written (after_search lib g s) = stdin_written s @ n0"
    "\<forall>c \<in> set n0. fixed_search c"
    using after_search_written [of lib g s] search_commands_fixed by blast
  obtain out e s3 where ru: "readUntil (after_search lib g s) ''bestmove'' = ((out, e), s3)"
    by (metis surj_pair)
  then have w3: "stdin_written s3 = stdin_written s @ n0"
    using n0(1) readUntil_stdin_written [of "after_search lib g s" "''bestmove''"] by simp
  obtain g' e' where mv: "chess_Move lib g m = (g', e')"
    by (cases "chess_Move lib g m")
  show ?case
  proof (cases "e = None \<and> e' = None")
    case False
    then have "snd (AnalyseGame_loop lib i (m # ms) g an s) = s3"
      using ru mv by (auto simp: loop_Cons split: option.splits)
    with w3 n0(2) show ?thesis by auto
  next
    case True
    then have eq: "AnalyseGame_loop lib i (m # ms) g an s =
        AnalyseGame_loop lib (Suc i) ms g'
          (an @ [analysis_entry i (Move_String lib m) (centipawns_of out)]) s3"
      using ru mv by (simp add: loop_Cons)
    from Cons.IH [of "Suc i" g' "an @ [analysis_entry i (Move_String lib m) (centipawns_of out)]" s3]
    obtain n1 where "stdin_written (snd (AnalyseGame_loop lib i (m # ms) g an s)) = stdin_written s3 @ n1"
      "\<forall>c \<in> set n1. fixed_search c"
      unfolding eq by blast
    with w3 n0(2) have "stdin_written (snd (AnalyseGame_loop lib i (m # ms) g an s)) = stdin_written s @ (n0 @ n1)"
      "\<forall>c \<in> set (n0 @ n1). fixed_search c"
      by auto
    then show ?thesis by blast
  qed
qed

lemma loop_written_exact:
  "stdin_open s \<Longrightarrow> stdin_faults s = [] \<Longrightarrow>
   snd (fst (AnalyseGame_loop lib i ms g an s)) = None \<Longrightarrow>
     stdin_written (snd (AnalyseGame_loop lib i ms g an s))
       = stdin_written s @ concat (map search_commands (positions lib g ms))"
proof (induction ms arbitrary: i g an s)
  case Nil
  then show ?case by simp
next
  case (Cons m ms)
  note as = after_search_written_exact [OF Cons.prems(1,2), of lib g]
  obtain out e s3 where ru: "readUntil (after_search lib g s) ''bestmove'' = ((out, e), s3)"
    by (metis surj_pair)
  obtain g' e' where mv: "chess_Move lib g m = (g', e')"
    by (cases "chess_Move lib g m")
  from Cons.prems(3) ru mv have ok: "e = None" "e' = None"
    by (auto simp: loop_Cons split: option.splits)
  have s3: "stdin_written s3 = stdin_written s @ search_commands (chess_FEN lib g)"
    "stdin_open s3" "stdin_faults s3 = []"
    using as ru readUntil_stdin_written [of "after_search lib g s" "''bestmove''"]
      readUntil_stdin [of "after_search lib g s" "''bestmove''"] by simp_all
  have eq: "AnalyseGame_loop lib i (m # ms) g an s =
        AnalyseGame_loop lib (Suc i) ms g'
          (an @ [analysis_entry i (Move_String lib m) (centipawns_of out)]) s3"
    using ru mv ok by (simp add: loop_Cons)
  from Cons.prems(3) have "snd (fst (AnalyseGame_loop lib (Suc i) ms g'
          (an @ [analysis_entry i (Move_String lib m) (centipawns_of out)]) s3)) = None"
    unfolding eq .
  from Cons.IH [OF s3(2,3) this] show ?case
    unfolding eq using s3(1) mv by simp
qed

subsection \<open>Rounding\<close>

lemma round_half_even_error: "\<bar>of_int (round_half_even y) - y\<bar> \<le> 1 / 2"
proof -
  have "of_int \<lfloor>y\<rfloor> \<le> y" "y < of_int \<lfloor>y\<rfloor> + 1"
    by linarith+
  then show ?thesis
    by (auto simp: round_half_even_def Let_def)
qed

lemma round_half_even_near:
  assumes "\<bar>y - of_int k\<bar> < 1 / 2"
  shows "round_half_even y = k"
proof (cases "of_int k \<le> y")
  case True
  with assms have "\<lfloor>y\<rfloor> = k" by (intro floor_unique) linarith+
  with assms True show ?thesis
    by (simp add: round_half_even_def Let_def)
next
  case False
  with assms have "\<lfloor>y\<rfloor> = k - 1" by (intro floor_unique) (simp, linarith)+
  with assms False show ?thesis
    by (simp add: round_half_even_def Let_def)
qed

lemma bitlen_powi:
  assumes "0 < n"
  shows "(2::rat) powi (bitlen n - 1) \<le> of_int n" and "of_int n < (2::rat) powi (bitlen n)"
proof -
  from bitlen_bounds [OF assms] have b: "2 ^ nat (bitlen n - 1) \<le> n" "n < 2 ^ nat (bitlen n)"
    by simp_all
  have ge1: "1 \<le> bitlen n"
    using assms bitlen_eq_zero_iff [of n] bitlen_nonneg [of n] by linarith
  have "(of_int (2 ^ nat (bitlen n - 1)) :: rat) \<le> of_int n"
    using b(1) by (simp only: of_int_le_iff)
  then show "(2::rat) powi (bitlen n - 1) \<le> of_int n"
    using ge1 by (simp add: power_int_def)
  have "(of_int n :: rat) < of_int (2 ^ nat (bitlen n))"
    using b(2) by (simp only: of_int_less_iff)
  then show "of_int n < (2::rat) powi (bitlen n)"
    using ge1 by (simp add: power_int_def)
qed

lemma binary_exponent_bounds:
  assumes "0 < a"
  shows "2 powi (binary_exponent a) \<le> a" and "a < 2 powi (binary_exponent a + 1)"
proof -
  obtain n d where q: "quotient_of a = (n, d)" by (cases "quotient_of a")
  then have d: "0 < d" and a: "a = of_int n / of_int d"
    using quotient_of_denom_pos quotient_of_div by blast+
  with assms have n: "0 < n"
    by (simp add: zero_less_divide_iff)
  let ?k = "bitlen n - bitlen d"
  have dpos: "(0::rat) < of_int d" using d by simp
  have "a < 2 powi (bitlen n) / 2 powi (bitlen d - 1)"
  proof -
    have "a < 2 powi (bitlen n) / of_int d"
      unfolding a using bitlen_powi(2) [OF n] dpos by (simp add: divide_strict_right_mono)
    also have "\<dots> \<le> 2 powi (bitlen n) / 2 powi (bitlen d - 1)"
      using bitlen_powi(1) [OF d] dpos by (intro divide_left_mono) simp_all
    finally show ?thesis .
  qed
  moreover have "(2::rat) powi (?k + 1) = 2 powi (bitlen n) / 2 powi (bitlen d - 1)"
    by (simp add: power_int_add power_int_diff)
  ultimately have up: "a < 2 powi (?k + 1)"
    by simp
  have "2 powi (bitlen n - 1) / 2 powi (bitlen d) \<le> a"
  proof -
    have "2 powi (bitlen n - 1) / 2 powi (bitlen d) \<le> 2 powi (bitlen n - 1) / (of_int d :: rat)"
      using bitlen_powi(2) [OF d] dpos by (intro divide_left_mono) (simp_all add: less_imp_le)
    also have "\<dots> \<le> a"
      unfolding a using bitlen_powi(1) [OF n] dpos by (simp add: divide_right_mono)
    finally show ?thesis .
  qed
  moreover have "(2::rat) powi (?k - 1) = 2 powi (bitlen n - 1) / 2 powi (bitlen d)"
    by (simp add: power_int_diff)
  ultimately have low: "2 powi (?k - 1) \<le> a"
    by simp
  show "2 powi (binary_exponent a) \<le> a"
    using low by (simp add: binary_exponent_def q Let_def)
  show "a < 2 powi (binary_exponent a + 1)"
    using up by (auto simp: binary_exponent_def q Let_def not_le)
qed

lemma float64_round_error:
  "\<bar>float64_round x - x\<bar> \<le> \<bar>x\<bar> / 2 ^ 53"
proof (cases "x = 0")
  case True
  then show ?thesis by (simp add: float64_round_def)
next
  case False
  define e where "e = binary_exponent \<bar>x\<bar> - 52"
  define P where "P = (2::rat) powi e"
  define y where "y = \<bar>x\<bar> / P"
  define m where "m = round_half_even y"
  have P: "0 < P" by (simp add: P_def)
  have fr: "float64_round x = sgn x * of_int m * P"
    using False by (simp add: float64_round_def Let_def e_def P_def y_def m_def)
  have x: "x = sgn x * y * P"
    using P by (simp add: y_def mult_sgn_abs)
  have "float64_round x - x = sgn x * P * (of_int m - y)"
    by (subst fr, subst (2) x) (simp add: algebra_simps)
  then have "\<bar>float64_round x - x\<bar> = P * \<bar>of_int m - y\<bar>"
    using False P by (simp add: abs_mult)
  also have "\<dots> \<le> P * (1 / 2)"
    using round_half_even_error [of y] P unfolding m_def by (intro mult_left_mono) simp_all
  also have "\<dots> \<le> \<bar>x\<bar> / 2 ^ 53"
  proof -
    have "2 powi (binary_exponent \<bar>x\<bar>) \<le> \<bar>x\<bar>"
      using binary_exponent_bounds(1) [of "\<bar>x\<bar>"] False by simp
    moreover have "(2::rat) powi (binary_exponent \<bar>x\<bar>) = P * 2 ^ 52"
      by (simp add: P_def e_def power_int_diff)
    ultimately have "P * 2 ^ 52 \<le> \<bar>x\<bar>" by simp
    then show ?thesis by (simp add: field_simps)
  qed
  finally show ?thesis .
qed


lemma float64_round_sign:
  "(float64_round x < 0) = (x < 0)"
proof (cases "x = 0")
  case True
  then show ?thesis by (simp add: float64_round_def)
next
  case False
  have "\<bar>x\<bar> / 2 ^ 53 < \<bar>x\<bar>"
    using False by (simp add: field_simps)
  with float64_round_error [of x] have "\<bar>float64_round x - x\<bar> < \<bar>x\<bar>"
    by linarith
  then show ?thesis by linarith
qed

lemma float64_of_int_exact:
  assumes "\<bar>n\<bar> < 2 ^ 53"
  shows "float64_of_int n = of_int n"
proof (cases "n = 0")
  case True
  then show ?thesis by (simp add: float64_of_int_def float64_round_def)
next
  case False
  define x :: rat where "x = of_int n"
  define b where "b = binary_exponent \<bar>x\<bar>"
  have x0: "x \<noteq> 0" "0 < \<bar>x\<bar>" using False by (simp_all add: x_def)
  have ax: "\<bar>x\<bar> = of_int \<bar>n\<bar>" by (simp add: x_def)
  have "(2::rat) powi b \<le> \<bar>x\<bar>"
    using binary_exponent_bounds(1) [OF x0(2)] by (simp add: b_def)
  also have "\<dots> < 2 ^ 53"
    unfolding ax using assms by (metis of_int_less_iff of_int_numeral of_int_power)
  finally have "(2::rat) powi b < 2 powi 53" by simp
  then have "b < 53"
    by (rule power_int_le_imp_less_exp [rotated]) simp_all
  then have b_le: "b \<le> 52" by simp
  have "1 \<le> \<bar>x\<bar>" unfolding ax using False by (simp add: x_def)
  also have "\<bar>x\<bar> < 2 powi (b + 1)"
    using binary_exponent_bounds(2) [OF x0(2)] by (simp add: b_def)
  finally have "(1::rat) < 2 powi (b + 1)" .
  moreover have "(2::rat) powi (b + 1) \<le> 2 powi 0" if "b + 1 \<le> 0"
    using that by (intro power_int_increasing) simp_all
  ultimately have b_ge: "0 \<le> b"
    by (cases "b + 1 \<le> 0") simp_all
  define j where "j = nat (52 - b)"
  have pw: "(2::rat) powi (b - 52) = 1 / 2 ^ j"
    using b_le by (simp add: power_int_def j_def field_simps)
  have y: "\<bar>x\<bar> / 2 powi (b - 52) = of_int (\<bar>n\<bar> * 2 ^ j)"
    by (simp add: pw ax)
  have rhe: "round_half_even (of_int (\<bar>n\<bar> * 2 ^ j) :: rat) = \<bar>n\<bar> * 2 ^ j"
    by (rule round_half_even_near) simp
  have "float64_round x =
      sgn x * of_int (round_half_even (\<bar>x\<bar> / 2 powi (b - 52))) * 2 powi (b - 52)"
    using x0(1) by (simp add: float64_round_def Let_def b_def)
  also have "\<dots> = sgn x * of_int (\<bar>n\<bar> * 2 ^ j) * (1 / 2 ^ j)"
    by (subst y, subst rhe, subst pw) (rule refl)
  also have "\<dots> = sgn x * \<bar>x\<bar>"
    by (simp add: ax)
  also have "\<dots> = x" by (simp add: mult_sgn_abs)
  finally show ?thesis by (simp add: float64_of_int_def x_def)
qed

lemma pawns_error:
  assumes "\<bar>cp\<bar> < 2 ^ 53"
  shows "\<bar>float64_div (float64_of_int cp) 100 - of_int cp / 100\<bar> \<le> \<bar>of_int cp / 100\<bar> / 2 ^ 53"
  using float64_round_error [of "of_int cp / 100"]
  by (simp add: float64_div_def float64_of_int_exact [OF assms])

lemma pawns_text:
  assumes "\<bar>cp\<bar> < 2 ^ 52"
  shows "Sprintf_plus_2f (float64_div (float64_of_int cp) 100) = signed_two_decimals cp"
proof -
  define d where "d = float64_div (float64_of_int cp) 100"
  have small: "\<bar>cp\<bar> < 2 ^ 53" using assms by simp
  have dr: "d = float64_round (of_int cp / 100)"
    by (simp add: d_def float64_div_def float64_of_int_exact [OF small])
  have "\<bar>d - of_int cp / 100\<bar> \<le> \<bar>of_int cp / 100\<bar> / 2 ^ 53"
    unfolding d_def by (rule pawns_error [OF small])
  then have "\<bar>d * 100 - of_int cp\<bar> \<le> \<bar>of_int cp\<bar> / 2 ^ 53"
    by (simp add: field_simps abs_if split: if_splits)
  moreover have "\<bar>of_int cp :: rat\<bar> < 2 ^ 52"
    using assms by (metis of_int_abs of_int_less_iff of_int_numeral of_int_power)
  then have "\<bar>of_int cp :: rat\<bar> / 2 ^ 53 < 1 / 2"
    by simp
  ultimately have close: "\<bar>d * 100 - of_int cp\<bar> < 1 / 2"
    by linarith
  have sign: "(d < 0) = (cp < 0)"
    unfolding dr float64_round_sign by (simp add: divide_less_0_iff)
  have "\<bar>\<bar>d\<bar> * 100 - of_int \<bar>cp\<bar>\<bar> < 1 / 2"
    using close sign by (simp add: abs_if split: if_splits)
  then have "round_half_even (\<bar>d\<bar> * 100) = \<bar>cp\<bar>"
    by (rule round_half_even_near)
  then show ?thesis
    using sign by (simp add: Sprintf_plus_2f_def signed_two_decimals_def Let_def d_def [symmetric])
qed

lemma zero_pawns: "float64_div (float64_of_int 0) 100 = 0"
  by (simp add: float64_div_def float64_of_int_def float64_round_def)

lemma zero_text: "Sprintf_plus_2f 0 = ''+0.00''"
  by code_simp

subsection \<open>The leftmost score\<close>

text \<open>Once the pattern matches at the start of a text, nothing after the match matters.\<close>

lemma first_score_wins:
  assumes "ds \<noteq> []" "list_all is_digit ds" "\<not> is_digit c"
  shows "centipawns_of (''score cp '' @ ds @ c # rest) = fst (Atoi ds)"
proof -
  obtain d ds' where ds: "ds = d # ds'" using assms(1) by (cases ds) auto
  with assms(2) have d: "is_digit d" by simp
  then have nd: "d \<noteq> CHR ''-''" by (auto simp: is_digit_def)
  have tw: "takeWhile is_digit (ds @ c # rest) = ds"
    using assms(2,3) by (simp add: list_all_iff)
  have "scoreRegex_here (''score cp '' @ ds @ c # rest) = [''score cp '' @ ds, ds]"
    using tw nd assms(1) unfolding ds scoreRegex_here_def by (simp add: Let_def)
  then have "FindStringSubmatch (''score cp '' @ ds @ c # rest) = [''score cp '' @ ds, ds]"
    by simp
  then show ?thesis
    by (simp add: centipawns_of_def Let_def)
qed

subsection \<open>The result does not depend on the writes\<close>

lemma readUntil_reader_only:
  assumes "reader s = reader t"
  shows "fst (readUntil s marker) = fst (readUntil t marker)"
    and "reader (snd (readUntil s marker)) = reader (snd (readUntil t marker))"
  using assms by (simp_all add: readUntil_def split: prod.splits)

lemma loop_reader_only:
  "reader s = reader t \<Longrightarrow>
     fst (AnalyseGame_loop lib i ms g an s) = fst (AnalyseGame_loop lib i ms g an t)"
proof (induction ms arbitrary: i g an s t)
  case Nil
  then show ?case by simp
next
  case (Cons m ms)
  have r: "reader (after_search lib g s) = reader (after_search lib g t)"
    using Cons.prems by simp
  obtain out e s3 where rs: "readUntil (after_search lib g s) ''bestmove'' = ((out, e), s3)"
    by (metis surj_pair)
  obtain out' e' t3 where rt: "readUntil (after_search lib g t) ''bestmove'' = ((out', e'), t3)"
    by (metis surj_pair)
  from readUntil_reader_only [OF r, of "''bestmove''"] rs rt
  have same: "out' = out" "e' = e" "reader s3 = reader t3"
    by simp_all
  obtain g' me where mv: "chess_Move lib g m = (g', me)"
    by (cases "chess_Move lib g m")
  show ?case
  proof (cases "e = None \<and> me = None")
    case True
    then show ?thesis
      using rs rt same mv Cons.IH [OF same(3)] by (simp add: loop_Cons)
  next
    case False
    then show ?thesis
      using rs rt same mv by (auto simp: loop_Cons split: option.splits)
  qed
qed

lemma AnalyseGame_result_ignores_writes:
  "fst (AnalyseGame lib (s\<lparr>stdin_open := b, stdin_faults := f\<rparr>) game) = fst (AnalyseGame lib s game)"
proof -
  have "reader (s\<lparr>stdin_open := b, stdin_faults := f\<rparr>) = reader s" by simp
  then show ?thesis
    using loop_reader_only [of "s\<lparr>stdin_open := b, stdin_faults := f\<rparr>" s]
    by (auto simp: AnalyseGame_def split: prod.splits option.splits)
qed

subsection \<open>The process during the handshake\<close>

lemma sendCommand_process [simp]:
  "cmd_started (snd (sendCommand s c)) = cmd_started s"
  "cmd_waited (snd (sendCommand s c)) = cmd_waited s"
  "stdin_open (snd (sendCommand s c)) = stdin_open s"
  "stdout_open (snd (sendCommand s c)) = stdout_open s"
  by (simp_all add: sendCommand_def Fprintln_def Let_def)

lemma readUntil_process [simp]:
  "cmd_started (snd (readUntil s marker)) = cmd_started s"
  "cmd_waited (snd (readUntil s marker)) = cmd_waited s"
  "stdout_open (snd (readUntil s marker)) = stdout_open s"
  by (simp_all add: readUntil_def split: prod.splits)

lemma handshake_unreleased:
  "unreleased a \<Longrightarrow> unreleased (snd (handshake a))"
  by (auto simp: handshake_def unreleased_def split: prod.splits option.splits
      dest!: arg_cong [where f = snd])

lemma NewStockfishAnalyser_unreleased:
  assumes "StdinPipe_err x = None" "StdoutPipe_err x = None" "Start_err x = None"
  shows "unreleased (snd (NewStockfishAnalyser x))"
proof -
  let ?a = "\<lparr>cmd_started = True, cmd_waited = False, stdin_open = True,
     stdout_open = True, stdin_written = [],
     stdin_faults = engine_stdin_faults x, reader = engine_stdout x\<rparr>"
  have "unreleased ?a" by (simp add: unreleased_def)
  then have "unreleased (snd (handshake ?a))" by (rule handshake_unreleased)
  then show ?thesis
    using assms by (simp add: NewStockfishAnalyser_def Let_def)
qed

section \<open>The claims\<close>

subsection \<open>Which score of a transcript is used\<close>

text \<open>
  C1. The claim is that of several \<open>score cp\<close> occurrences in one transcript the last one
  is used. \<open>FindStringSubmatch\<close> returns the leftmost match, so the first one is used: on
  a transcript reporting 10 centipawns at depth 1 and 35 at depth 2 before \<open>bestmove\<close>, the
  evaluation is that of 10 centipawns, \<open>+0.10\<close> (in general, \<open>first_score_wins\<close>).
\<close>

theorem AnalyseGame_takes_first_score:
  "fst (AnalyseGame coordinate_replay
         (ready_session []
            (unlines [''info depth 1 score cp 10'', ''info depth 2 score cp 35'', ''bestmove e2e4'']))
         (game_with_PGN ''e2e4''))
     = ([\<lparr>MoveNumber = 1, Move = ''e2e4'',
          Evaluation = float64_div (float64_of_int 10) 100, EvaluationText = ''+0.10''\<rparr>], None)"
  by code_simp

subsection \<open>One evaluation per ply\<close>

text \<open>
  C2. When the parsed moves replay from the initial position and the engine completes at
  least as many searches as there are moves, \<open>AnalyseGame\<close> returns no error and exactly
  one evaluation per move, in move order: the element at index \<open>i\<close> has \<open>MoveNumber\<close>
  \<open>i div 2 + 1\<close> and the text of move \<open>i\<close>.
\<close>

theorem AnalyseGame_one_evaluation_per_ply:
  assumes "chess_PGN lib (PGN game) = (ms, None)"
    and "replays lib (chess_NewGame lib) ms"
    and "length ms \<le> completions (reader s)"
  shows "snd (fst (AnalyseGame lib s game)) = None
       \<and> length (fst (fst (AnalyseGame lib s game))) = length ms
       \<and> (\<forall>i < length ms.
             MoveNumber (fst (fst (AnalyseGame lib s game)) ! i) = int i div 2 + 1
           \<and> Move (fst (fst (AnalyseGame lib s game)) ! i) = Move_String lib (ms ! i))"
proof -
  let ?r = "AnalyseGame lib s game"
  have ok: "snd (fst ?r) = None"
    using loop_succeeds [OF assms(2,3)] by (simp add: AnalyseGame_parsed [OF assms(1)])
  then obtain res s' where r: "?r = ((res, None), s')"
    by (cases ?r) auto
  from AnalyseGame_ok_shape [OF r] assms(1) obtain cps where
    cps: "length cps = length ms" "res = entries lib 0 ms cps"
    by auto
  then show ?thesis
    using ok r by (simp add: entries_nth)
qed

theorem AnalyseGame_one_evaluation_per_ply_witness:
  "chess_PGN coordinate_replay (PGN four_ply_game) = ([''e2e4'', ''e7e5'', ''g1f3'', ''b8c6''], None)
   \<and> replays coordinate_replay (chess_NewGame coordinate_replay) [''e2e4'', ''e7e5'', ''g1f3'', ''b8c6'']
   \<and> length [''e2e4'', ''e7e5'', ''g1f3'', ''b8c6''] \<le> completions (reader steady_engine)
   \<and> snd (fst (AnalyseGame coordinate_replay steady_engine four_ply_game)) = None
   \<and> length (fst (fst (AnalyseGame coordinate_replay steady_engine four_ply_game))) = 4
   \<and> map MoveNumber (fst (fst (AnalyseGame coordinate_replay steady_engine four_ply_game))) = [1, 1, 2, 2]"
proof -
  let ?ms = "[''e2e4'', ''e7e5'', ''g1f3'', ''b8c6'']"
  have h1: "chess_PGN coordinate_replay (PGN four_ply_game) = (?ms, None)"
    by code_simp
  have h2: "replays coordinate_replay (chess_NewGame coordinate_replay) ?ms"
    by code_simp
  have h3: "length ?ms \<le> completions (reader steady_engine)"
    by code_simp
  note t = AnalyseGame_one_evaluation_per_ply [OF h1 h2 h3]
  let ?res = "fst (fst (AnalyseGame coordinate_replay steady_engine four_ply_game))"
  from t have len: "length ?res = 4" by simp
  from t have "MoveNumber (?res ! 0) = 1" "MoveNumber (?res ! 1) = 1"
    "MoveNumber (?res ! 2) = 2" "MoveNumber (?res ! 3) = 2"
    by simp_all
  with len have "map MoveNumber ?res = [1, 1, 2, 2]"
    by (simp add: list_eq_iff_nth_eq nth_Cons' less_Suc_eq numeral_eq_Suc)
  with h1 h2 h3 t show ?thesis by simp
qed

subsection \<open>The search command\<close>

text \<open>
  C3, as amended. \<open>AnalyseGame\<close> takes no thinking time. Every command it writes is a
  \<open>position fen\<close> command or the fixed line \<open>go movetime 500\<close>; when no write fails and the
  analysis succeeds, it writes exactly, for each move in turn, the position before the
  move and then \<open>go movetime 500\<close>.
\<close>

theorem AnalyseGame_search_command_fixed:
  "(\<exists>new. stdin_written (snd (AnalyseGame lib s game)) = stdin_written s @ new
          \<and> (\<forall>c \<in> set new. c = ''go movetime 500'' \<or> prefix ''position fen '' c))
   \<and> (stdin_open s \<and> stdin_faults s = [] \<and> chess_PGN lib (PGN game) = (ms, None)
        \<and> snd (fst (AnalyseGame lib s game)) = None \<longrightarrow>
       stdin_written (snd (AnalyseGame lib s game))
         = stdin_written s
           @ concat (map (\<lambda>fen. [''position fen '' @ fen, ''go movetime 500''])
                       (positions lib (chess_NewGame lib) ms)))"
proof (intro conjI impI)
  obtain ps e where p: "chess_PGN lib (PGN game) = (ps, e)"
    by (cases "chess_PGN lib (PGN game)")
  show "\<exists>new. stdin_written (snd (AnalyseGame lib s game)) = stdin_written s @ new
          \<and> (\<forall>c \<in> set new. c = ''go movetime 500'' \<or> prefix ''position fen '' c)"
  proof (cases e)
    case (Some err)
    with p have "snd (AnalyseGame lib s game) = s" by (simp add: AnalyseGame_def)
    then show ?thesis by simp
  next
    case None
    with p have "AnalyseGame lib s game = AnalyseGame_loop lib 0 ps (chess_NewGame lib) [] s"
      by (simp add: AnalyseGame_def)
    then show ?thesis
      using loop_written [of lib 0 ps "chess_NewGame lib" "[]" s]
      by (simp add: fixed_search_def)
  qed
next
  assume a: "stdin_open s \<and> stdin_faults s = [] \<and> chess_PGN lib (PGN game) = (ms, None)
        \<and> snd (fst (AnalyseGame lib s game)) = None"
  then have eq: "AnalyseGame lib s game = AnalyseGame_loop lib 0 ms (chess_NewGame lib) [] s"
    by (simp add: AnalyseGame_def)
  have "search_commands = (\<lambda>fen. [''position fen '' @ fen, ''go movetime 500''])"
    by (rule ext) (simp add: search_commands_def)
  then show "stdin_written (snd (AnalyseGame lib s game))
         = stdin_written s
           @ concat (map (\<lambda>fen. [''position fen '' @ fen, ''go movetime 500''])
                       (positions lib (chess_NewGame lib) ms))"
    using loop_written_exact [of s lib 0 ms "chess_NewGame lib" "[]"] a
    unfolding eq by simp
qed

theorem AnalyseGame_search_command_fixed_witness:
  "stdin_open steady_engine \<and> stdin_faults steady_engine = []
   \<and> chess_PGN coordinate_replay (PGN four_ply_game) = ([''e2e4'', ''e7e5'', ''g1f3'', ''b8c6''], None)
   \<and> snd (fst (AnalyseGame coordinate_replay steady_engine four_ply_game)) = None
   \<and> stdin_written (snd (AnalyseGame coordinate_replay steady_engine four_ply_game))
       = [''uci'', ''isready'',
          ''position fen startpos moves'', ''go movetime 500'',
          ''position fen startpos moves e2e4'', ''go movetime 500'',
          ''position fen startpos moves e2e4 e7e5'', ''go movetime 500'',
          ''position fen startpos moves e2e4 e7e5 g1f3'', ''go movetime 500'']"
proof -
  let ?ms = "[''e2e4'', ''e7e5'', ''g1f3'', ''b8c6'']"
  have h: "stdin_open steady_engine \<and> stdin_faults steady_engine = []
     \<and> chess_PGN coordinate_replay (PGN four_ply_game) = (?ms, None)
     \<and> snd (fst (AnalyseGame coordinate_replay steady_engine four_ply_game)) = None"
    by code_simp
  have c: "stdin_written steady_engine
      @ concat (map (\<lambda>fen. [''position fen '' @ fen, ''go movetime 500''])
                  (positions coordinate_replay (chess_NewGame coordinate_replay) ?ms))
     = [''uci'', ''isready'',
        ''position fen startpos moves'', ''go movetime 500'',
        ''position fen startpos moves e2e4'', ''go movetime 500'',
        ''position fen startpos moves e2e4 e7e5'', ''go movetime 500'',
        ''position fen startpos moves e2e4 e7e5 g1f3'', ''go movetime 500'']"
    by code_simp
  from AnalyseGame_search_command_fixed [of coordinate_replay steady_engine four_ply_game ?ms] h
  have "stdin_written (snd (AnalyseGame coordinate_replay steady_engine four_ply_game))
      = stdin_written steady_engine
        @ concat (map (\<lambda>fen. [''position fen '' @ fen, ''go movetime 500''])
                    (positions coordinate_replay (chess_NewGame coordinate_replay) ?ms))"
    by blast
  with c h show ?thesis by simp
qed

text \<open>
  C3 as stated fails: for a caller who wants 1000 milliseconds, the search command of the
  specification is not among the commands written for the one-move game \<open>e2e4\<close>.
\<close>

theorem search_command_ignores_budget:
  "stdin_written (snd (AnalyseGame coordinate_replay (ready_session [] (unlines [''bestmove e2e4'']))
        (game_with_PGN ''e2e4'')))
     = [''uci'', ''isready'', ''position fen startpos moves'', ''go movetime 500'']
   \<and> spec_search_command 1000 \<notin> set [''uci'', ''isready'', ''position fen startpos moves'', ''go movetime 500'']"
  by code_simp

subsection \<open>A transcript without a score\<close>

text \<open>
  C4. When the search for a position completes and the score pattern matches nowhere in
  its transcript, the iteration does not fail: the element appended for the move has
  evaluation \<open>0\<close> and text \<open>+0.00\<close>, and the loop goes on with the next move.
\<close>

theorem missing_score_is_neutral:
  assumes "readUntil (after_search lib g s) ''bestmove'' = ((output, None), s3)"
    and "FindStringSubmatch output = []"
    and "chess_Move lib g move = (g', None)"
  shows "AnalyseGame_loop lib i (move # moves) g analysis s =
           AnalyseGame_loop lib (Suc i) moves g'
             (analysis @ [\<lparr>MoveNumber = int i div 2 + 1, Move = Move_String lib move,
                             Evaluation = 0, EvaluationText = ''+0.00''\<rparr>]) s3"
proof -
  have "centipawns_of output = 0"
    using assms(2) by (simp add: centipawns_of_def)
  then have "analysis_entry i (Move_String lib move) (centipawns_of output) =
     \<lparr>MoveNumber = int i div 2 + 1, Move = Move_String lib move,
      Evaluation = 0, EvaluationText = ''+0.00''\<rparr>"
    by (simp add: analysis_entry_def zero_pawns zero_text)
  then show ?thesis
    using assms(1,3) by (simp add: loop_Cons)
qed

theorem missing_score_is_neutral_witness:
  "readUntil (after_search coordinate_replay [] (ready_session [] (unlines [''info depth 1'', ''bestmove e2e4'']))) ''bestmove''
     = ((unlines [''info depth 1'', ''bestmove e2e4''], None),
        \<lparr>cmd_started = True, cmd_waited = False, stdin_open = True, stdout_open = True,
         stdin_written = [''uci'', ''isready'', ''position fen startpos moves'', ''go movetime 500''],
         stdin_faults = [], reader = []\<rparr>)
   \<and> FindStringSubmatch (unlines [''info depth 1'', ''bestmove e2e4'']) = []
   \<and> chess_Move coordinate_replay [] ''e2e4'' = ([''e2e4''], None)
   \<and> AnalyseGame_loop coordinate_replay 0 [''e2e4''] []
         [] (ready_session [] (unlines [''info depth 1'', ''bestmove e2e4'']))
       = (([\<lparr>MoveNumber = 1, Move = ''e2e4'', Evaluation = 0, EvaluationText = ''+0.00''\<rparr>], None),
          \<lparr>cmd_started = True, cmd_waited = False, stdin_open = True, stdout_open = True,
           stdin_written = [''uci'', ''isready'', ''position fen startpos moves'', ''go movetime 500''],
           stdin_faults = [], reader = []\<rparr>)"
proof -
  let ?s = "ready_session [] (unlines [''info depth 1'', ''bestmove e2e4''])"
  let ?s3 = "\<lparr>cmd_started = True, cmd_waited = False, stdin_open = True, stdout_open = True,
         stdin_written = [''uci'', ''isready'', ''position fen startpos moves'', ''go movetime 500''],
         stdin_faults = [], reader = []\<rparr>"
  have h1: "readUntil (after_search coordinate_replay [] ?s) ''bestmove''
      = ((unlines [''info depth 1'', ''bestmove e2e4''], None), ?s3)"
    by code_simp
  have h2: "FindStringSubmatch (unlines [''info depth 1'', ''bestmove e2e4'']) = []"
    by code_simp
  have h3: "chess_Move coordinate_replay [] ''e2e4'' = ([''e2e4''], None)"
    by code_simp
  have m: "Move_String coordinate_replay ''e2e4'' = ''e2e4''"
    by code_simp
  from missing_score_is_neutral [OF h1 h2 h3, of 0 "[]" "[]"]
  have "AnalyseGame_loop coordinate_replay 0 [''e2e4''] [] [] ?s
      = (([\<lparr>MoveNumber = 1, Move = ''e2e4'', Evaluation = 0, EvaluationText = ''+0.00''\<rparr>], None), ?s3)"
    by (simp add: m)
  with h1 h2 h3 show ?thesis by simp
qed

subsection \<open>Failure in the middle of a game\<close>

text \<open>
  C5. When the parsed moves do not all replay, or the engine's output ends before it has
  completed a search for every move, \<open>AnalyseGame\<close> returns an error and the \<open>nil\<close> slice:
  the elements built for earlier moves are not returned.
\<close>

theorem AnalyseGame_failure_discards:
  assumes "chess_PGN lib (PGN game) = (ms, None)"
    and "\<not> replays lib (chess_NewGame lib) ms \<or> completions (reader s) < length ms"
  shows "snd (fst (AnalyseGame lib s game)) \<noteq> None \<and> fst (fst (AnalyseGame lib s game)) = []"
proof -
  have "snd (fst (AnalyseGame lib s game)) \<noteq> None"
    using loop_fails [OF assms(2)] by (simp add: AnalyseGame_parsed [OF assms(1)])
  moreover from this have "fst (fst (AnalyseGame lib s game)) = []"
    using loop_error_nil [of lib 0 ms "chess_NewGame lib" "[]" s]
    by (simp add: AnalyseGame_parsed [OF assms(1)])
  ultimately show ?thesis by simp
qed

theorem AnalyseGame_failure_discards_witness:
  "chess_PGN coordinate_replay (PGN (game_with_PGN ''e2e4 0000 g1f3'')) = ([''e2e4'', ''0000'', ''g1f3''], None)
   \<and> \<not> replays coordinate_replay (chess_NewGame coordinate_replay) [''e2e4'', ''0000'', ''g1f3'']
   \<and> snd (fst (AnalyseGame coordinate_replay steady_engine (game_with_PGN ''e2e4 0000 g1f3''))) \<noteq> None
   \<and> fst (fst (AnalyseGame coordinate_replay steady_engine (game_with_PGN ''e2e4 0000 g1f3''))) = []
   \<and> chess_PGN coordinate_replay (PGN four_ply_game) = ([''e2e4'', ''e7e5'', ''g1f3'', ''b8c6''], None)
   \<and> completions (reader (silent_engine 3)) < length [''e2e4'', ''e7e5'', ''g1f3'', ''b8c6'']
   \<and> snd (fst (AnalyseGame coordinate_replay (silent_engine 3) four_ply_game)) \<noteq> None
   \<and> fst (fst (AnalyseGame coordinate_replay (silent_engine 3) four_ply_game)) = []"
proof -
  let ?ms = "[''e2e4'', ''0000'', ''g1f3'']"
  let ?ns = "[''e2e4'', ''e7e5'', ''g1f3'', ''b8c6'']"
  have h1: "chess_PGN coordinate_replay (PGN (game_with_PGN ''e2e4 0000 g1f3'')) = (?ms, None)"
    by code_simp
  have h2: "\<not> replays coordinate_replay (chess_NewGame coordinate_replay) ?ms"
    by code_simp
  from h2 have h: "\<not> replays coordinate_replay (chess_NewGame coordinate_replay) ?ms
      \<or> completions (reader steady_engine) < length ?ms"
    by (rule disjI1)
  have k1: "chess_PGN coordinate_replay (PGN four_ply_game) = (?ns, None)"
    by code_simp
  have k2: "completions (reader (silent_engine 3)) < length ?ns"
    by code_simp
  from k2 have k: "\<not> replays coordinate_replay (chess_NewGame coordinate_replay) ?ns
      \<or> completions (reader (silent_engine 3)) < length ?ns"
    by (rule disjI2)
  show ?thesis
    using h1 h2 k1 k2 AnalyseGame_failure_discards [OF h1 h] AnalyseGame_failure_discards [OF k1 k]
    by simp
qed

subsection \<open>The side to move\<close>




subsection \<open>Pawns and display text\<close>

text \<open>
  C7. The element built for a score of \<open>cp\<close> centipawns has as \<open>Evaluation\<close> the \<open>float64\<close>
  quotient of \<open>cp\<close> by 100 and as \<open>EvaluationText\<close> the signed two-decimal rendering of
  that value. For \<open>\<bar>cp\<bar> < 2 ^ 52\<close> the quotient is the exact \<open>cp / 100\<close> up to one rounding
  (a relative error of at most \<open>2 ^ - 53\<close>) and the text is the exact two-decimal form of
  \<open>cp / 100\<close>: 123 gives \<open>+1.23\<close>, -54 gives \<open>-0.54\<close>, 0 gives \<open>+0.00\<close>.
\<close>

theorem evaluation_in_pawns_and_text:
  "Evaluation (analysis_entry i mv cp) = float64_div (float64_of_int cp) 100
   \<and> EvaluationText (analysis_entry i mv cp) = Sprintf_plus_2f (Evaluation (analysis_entry i mv cp))
   \<and> (\<bar>cp\<bar> < 2 ^ 52 \<longrightarrow>
        \<bar>Evaluation (analysis_entry i mv cp) - of_int cp / 100\<bar> \<le> \<bar>of_int cp / 100\<bar> / 2 ^ 53
        \<and> EvaluationText (analysis_entry i mv cp) = signed_two_decimals cp)"
  using pawns_error [of cp] pawns_text [of cp] by simp

theorem evaluation_in_pawns_and_text_witness:
  "\<bar>123 :: int\<bar> < 2 ^ 52 \<and> EvaluationText (analysis_entry 0 ''e2e4'' 123) = ''+1.23''
   \<and> \<bar>- 54 :: int\<bar> < 2 ^ 52 \<and> EvaluationText (analysis_entry 1 ''e7e5'' (- 54)) = ''-0.54''
   \<and> \<bar>0 :: int\<bar> < 2 ^ 52 \<and> EvaluationText (analysis_entry 2 ''g1f3'' 0) = ''+0.00''"
proof -
  have t: "signed_two_decimals 123 = ''+1.23''" "signed_two_decimals (- 54) = ''-0.54''"
    "signed_two_decimals 0 = ''+0.00''"
    by code_simp+
  have h: "\<bar>123 :: int\<bar> < 2 ^ 52" "\<bar>- 54 :: int\<bar> < 2 ^ 52" "\<bar>0 :: int\<bar> < 2 ^ 52"
    by simp_all
  have a: "EvaluationText (analysis_entry 0 ''e2e4'' 123) = signed_two_decimals 123"
    using evaluation_in_pawns_and_text [of 0 "''e2e4''" 123] h(1) by blast
  have b: "EvaluationText (analysis_entry 1 ''e7e5'' (- 54)) = signed_two_decimals (- 54)"
    using evaluation_in_pawns_and_text [of 1 "''e7e5''" "- 54"] h(2) by blast
  have c: "EvaluationText (analysis_entry 2 ''g1f3'' 0) = signed_two_decimals 0"
    using evaluation_in_pawns_and_text [of 2 "''g1f3''" 0] h(3) by blast
  show ?thesis
    using h a [unfolded t] b [unfolded t] c [unfolded t] by blast
qed

subsection \<open>Write errors\<close>

text \<open>
  C8. The claim is that a failed write of the position or search command fails the
  analysis. \<open>AnalyseGame\<close> drops the result of both \<open>sendCommand\<close> calls: when both writes
  fail and the stream still holds a \<open>bestmove\<close> line, it returns an evaluation and no
  error. In general (\<open>AnalyseGame_result_ignores_writes\<close>) what it returns does not
  depend on whether the writes succeed.
\<close>

theorem AnalyseGame_ignores_write_errors:
  "fst (sendCommand (ready_session [True, True] (unlines [''bestmove e2e4'']))
          ''position fen startpos moves'') = Some io_WriteError
   \<and> AnalyseGame coordinate_replay (ready_session [True, True] (unlines [''bestmove e2e4'']))
        (game_with_PGN ''e2e4'')
     = (([\<lparr>MoveNumber = 1, Move = ''e2e4'', Evaluation = 0, EvaluationText = ''+0.00''\<rparr>], None),
        ready_session [] [])"
  by code_simp

subsection \<open>Release of the process\<close>

text \<open>
  C9. The claim is that a failed initialisation releases the process and both pipe
  ends. When the started engine closes its output before \<open>uciok\<close>, \<open>NewStockfishAnalyser\<close>
  returns \<open>nil\<close> and the error, and leaves the process started and not waited for and
  both pipe ends open, with no pointer through which \<open>Close\<close> could be called. The
  same holds on every return after \<open>cmd.Start\<close> (\<open>NewStockfishAnalyser_unreleased\<close>).
\<close>

theorem NewStockfishAnalyser_leaves_process_on_error:
  "NewStockfishAnalyser \<lparr>StdinPipe_err = None, StdoutPipe_err = None, Start_err = None,
       engine_stdout = [], engine_stdin_faults = []\<rparr>
     = ((None, Some io_EOF),
        \<lparr>cmd_started = True, cmd_waited = False, stdin_open = True, stdout_open = True,
         stdin_written = [''uci''], stdin_faults = [], reader = []\<rparr>)"
  by code_simp

subsection \<open>A game without moves\<close>

text \<open>
  C10. When the parsed move list is empty, \<open>AnalyseGame\<close> returns the empty sequence and
  no error, and the session is as before: nothing was written to the engine and nothing
  was read from it.
\<close>

theorem AnalyseGame_no_moves:
  assumes "chess_PGN lib (PGN game) = ([], None)"
  shows "AnalyseGame lib s game = (([], None), s)"
  using assms by (simp add: AnalyseGame_def)

theorem AnalyseGame_no_moves_witness:
  "chess_PGN coordinate_replay (PGN (game_with_PGN [])) = ([], None)
   \<and> AnalyseGame coordinate_replay (ready_session [] []) (game_with_PGN [])
       = (([], None), ready_session [] [])"
proof -
  have h: "chess_PGN coordinate_replay (PGN (game_with_PGN [])) = ([], None)"
    by (simp add: coordinate_replay_def game_with_PGN_def)
  show ?thesis
    using h AnalyseGame_no_moves [OF h, of "ready_session [] []"] by simp
qed

end
